theory Spec2Isabelle
  imports Main "HOL-Library.Word"
begin

section \<open>The in-memory counter store of throttled (store/mem.go)\<close>

text \<open>
  The store maps string keys to \<^verbatim>\<open>*int64\<close> cells. A counter is a signed 64-bit machine
  integer; the store only loads, stores and compares it, so it is a 64-bit word here.
  A pointer is the address of a cell, and the cells are kept in an explicit memory, so
  that \<^verbatim>\<open>atomic.LoadInt64\<close> and \<^verbatim>\<open>atomic.CompareAndSwapInt64\<close> read and write
  through the pointer as the source does. The model is sequential: one call runs at a
  time, and the reader/writer lock, which changes no data, is left out.
\<close>

type_synonym int64 = "64 word"

type_synonym addr = nat

datatype error = ErrNoSuchKey | ErrCacheSize

subsection \<open>The bounded cache\<close>

text \<open>
  Modelled from the spec: the least-recently-used cache of the imported package
  \<^verbatim>\<open>github.com/hashicorp/golang-lru\<close> (\<^verbatim>\<open>lru.Cache\<close> with \<^verbatim>\<open>lru.New\<close>, \<^verbatim>\<open>Get\<close> and
  \<^verbatim>\<open>Add\<close>), whose code is not among the sources. The spec describes it as a
  fixed-capacity least-recently-used cache whose capacity is fixed at construction, in
  which a cache hit touches the entry (which is what makes eviction least-recently-used),
  in which insertion beyond capacity evicts the least-recently-used key, removing the
  entry entirely, and whose construction fails on a non-positive capacity.

  The entries are kept in recency order, the most recently used entry first.
\<close>

record Cache =
  size_c :: int
  evictList :: "(string \<times> addr) list"

text \<open>Modelled from the spec: \<^verbatim>\<open>lru.New(size)\<close>, which fails on a non-positive size.\<close>

definition lru_New :: "int \<Rightarrow> Cache option \<times> error option" where
  "lru_New sz =
     (if sz \<le> 0 then (None, Some ErrCacheSize)
      else (Some \<lparr>size_c = sz, evictList = []\<rparr>, None))"

definition removeKey :: "string \<Rightarrow> (string \<times> addr) list \<Rightarrow> (string \<times> addr) list" where
  "removeKey key l = filter (\<lambda>e. fst e \<noteq> key) l"

text \<open>
  Modelled from the spec: \<^verbatim>\<open>c.Get(key)\<close>. A hit returns the stored pointer and moves
  the entry to the front of the recency order; a miss changes nothing. The result
  \<open>Some p\<close> stands for \<^verbatim>\<open>(p, true)\<close> and \<open>None\<close> for \<^verbatim>\<open>(nil, false)\<close>.
\<close>

definition lru_Get :: "Cache \<Rightarrow> string \<Rightarrow> addr option \<times> Cache" where
  "lru_Get c key =
     (case map_of (evictList c) key of
        Some p \<Rightarrow> (Some p, c\<lparr>evictList := (key, p) # removeKey key (evictList c)\<rparr>)
      | None \<Rightarrow> (None, c))"

text \<open>
  Modelled from the spec: \<^verbatim>\<open>c.Add(key, value)\<close>. A key that is present gets the new
  value and moves to the front. A new key is put at the front, and when the cache then
  holds more entries than its size, the entry at the back, the least recently used one,
  is removed.
\<close>

definition lru_Add :: "Cache \<Rightarrow> string \<Rightarrow> addr \<Rightarrow> Cache" where
  "lru_Add c key p =
     (case map_of (evictList c) key of
        Some _ \<Rightarrow> c\<lparr>evictList := (key, p) # removeKey key (evictList c)\<rparr>
      | None \<Rightarrow>
          (let l = (key, p) # evictList c
           in if int (length l) > size_c c then c\<lparr>evictList := butlast l\<rparr>
              else c\<lparr>evictList := l\<rparr>))"

subsection \<open>The store\<close>

text \<open>
  \<^verbatim>\<open>type memStore struct { sync.RWMutex; keys *lru.Cache; m map[string]*int64 }\<close>.
  \<open>keys\<close> is \<open>None\<close> for the nil pointer. \<open>cells\<close> is the memory holding the counters
  the pointers refer to, and \<open>fresh\<close> the next unused address: \<^verbatim>\<open>v := value\<close> followed
  by \<^verbatim>\<open>&v\<close> allocates a new cell.
\<close>

record memStore =
  keys :: "Cache option"
  m :: "string \<rightharpoonup> addr"
  cells :: "addr \<Rightarrow> int64"
  fresh :: addr

text \<open>
  \<^verbatim>\<open>NewMemStore(maxKeys int) (Store, error)\<close>: the pair of the store (\<open>None\<close> for nil)
  and the error (\<open>None\<close> for nil). \<^verbatim>\<open>maxKeys\<close> is only compared, so it is an unbounded
  integer here. In bounded mode the field \<open>m\<close> stays the nil map, which reads as empty.
\<close>

definition NewMemStore :: "int \<Rightarrow> memStore option \<times> error option" where
  "NewMemStore maxKeys =
     (if maxKeys > 0 then
        (case lru_New maxKeys of
           (_, Some err) \<Rightarrow> (None, Some err)
         | (ks, None) \<Rightarrow>
             (Some \<lparr>keys = ks, m = Map.empty, cells = (\<lambda>_. 0), fresh = 0\<rparr>, None))
      else
        (Some \<lparr>keys = None, m = Map.empty, cells = (\<lambda>_. 0), fresh = 0\<rparr>, None))"

text \<open>
  \<^verbatim>\<open>func (ms *memStore) get(key string, locked bool) (*int64, bool)\<close>. The flag
  \<^verbatim>\<open>locked\<close> only decides whether the read lock is taken. The result \<open>Some p\<close> stands
  for \<^verbatim>\<open>(p, true)\<close> and \<open>None\<close> for \<^verbatim>\<open>(nil, false)\<close>; the store is returned too, since
  a hit in the cache changes the recency order.
\<close>

definition get :: "memStore \<Rightarrow> string \<Rightarrow> bool \<Rightarrow> addr option \<times> memStore" where
  "get ms key locked =
     (case keys ms of
        Some c \<Rightarrow> (let (valI, c') = lru_Get c key in (valI, ms\<lparr>keys := Some c'\<rparr>))
      | None \<Rightarrow> (m ms key, ms))"

definition Get :: "memStore \<Rightarrow> string \<Rightarrow> (int64 \<times> error option) \<times> memStore" where
  "Get ms key =
     (let (valP, ms1) = get ms key False
      in case valP of
           None \<Rightarrow> ((0, Some ErrNoSuchKey), ms1)
         | Some p \<Rightarrow> ((cells ms1 p, None), ms1))"

definition SetNX :: "memStore \<Rightarrow> string \<Rightarrow> int64 \<Rightarrow> (bool \<times> error option) \<times> memStore" where
  "SetNX ms key val =
     (let (r1, ms1) = get ms key False
      in if r1 \<noteq> None then ((False, None), ms1)
         else
           let (r2, ms2) = get ms1 key True
           in if r2 \<noteq> None then ((False, None), ms2)
              else
                let v = fresh ms2;
                    ms3 = ms2\<lparr>cells := (cells ms2)(v := val), fresh := Suc v\<rparr>
                in case keys ms3 of
                     Some c \<Rightarrow> ((True, None), ms3\<lparr>keys := Some (lru_Add c key v)\<rparr>)
                   | None \<Rightarrow> ((True, None), ms3\<lparr>m := (m ms3)(key \<mapsto> v)\<rparr>))"

text \<open>
  \<^verbatim>\<open>atomic.CompareAndSwapInt64(addr, old, new)\<close> on the cell memory: the cell is
  overwritten when it holds \<open>old\<close>, and the result tells whether it was.
\<close>

definition CompareAndSwapInt64 ::
  "(addr \<Rightarrow> int64) \<Rightarrow> addr \<Rightarrow> int64 \<Rightarrow> int64 \<Rightarrow> bool \<times> (addr \<Rightarrow> int64)" where
  "CompareAndSwapInt64 mem p old new =
     (if mem p = old then (True, mem(p := new)) else (False, mem))"

definition CompareAndSwap ::
  "memStore \<Rightarrow> string \<Rightarrow> int64 \<Rightarrow> int64 \<Rightarrow> (bool \<times> error option) \<times> memStore" where
  "CompareAndSwap ms key old new =
     (let (valP, ms1) = get ms key False
      in case valP of
           None \<Rightarrow> ((False, Some ErrNoSuchKey), ms1)
         | Some p \<Rightarrow>
             (let (swapped, mem') = CompareAndSwapInt64 (cells ms1) p old new
              in ((swapped, None), ms1\<lparr>cells := mem'\<rparr>)))"

subsection \<open>Observing a store\<close>

text \<open>
  The entry of a key is the pointer the store holds for it, read without touching the
  recency order; the counter of a key is the content of that cell.
\<close>

definition entry :: "memStore \<Rightarrow> string \<Rightarrow> addr option" where
  "entry ms key =
     (case keys ms of Some c \<Rightarrow> map_of (evictList c) key | None \<Rightarrow> m ms key)"

definition counter :: "memStore \<Rightarrow> string \<Rightarrow> int64 option" where
  "counter ms key = map_option (cells ms) (entry ms key)"

text \<open>A cache, once constructed, has a positive size.\<close>

definition sized :: "memStore \<Rightarrow> bool" where
  "sized ms = (case keys ms of Some c \<Rightarrow> 0 < size_c c | None \<Rightarrow> True)"

text \<open>Inserting a list of key/value pairs, one \<^verbatim>\<open>SetNX\<close> call after the other.\<close>

fun SetNX_all :: "memStore \<Rightarrow> (string \<times> int64) list \<Rightarrow> memStore" where
  "SetNX_all ms [] = ms"
| "SetNX_all ms ((k, v) # kvs) = SetNX_all (snd (SetNX ms k v)) kvs"

text \<open>
  What such a run leaves behind when the keys are pairwise different: the i-th pair gets
  the cell at address i, and the newest pair comes first.
\<close>

definition slots :: "(string \<times> int64) list \<Rightarrow> (string \<times> addr) list" where
  "slots kvs = rev (zip (map fst kvs) [0..<length kvs])"

definition contents :: "(string \<times> int64) list \<Rightarrow> addr \<Rightarrow> int64" where
  "contents kvs p = (if p < length kvs then snd (kvs ! p) else 0)"

subsection \<open>Runs of calls\<close>

text \<open>
  A call of one of the three operations, and a run of such calls on a store, one after
  the other.
\<close>

datatype op = OpGet string | OpSetNX string int64 | OpCompareAndSwap string int64 int64

fun step :: "memStore \<Rightarrow> op \<Rightarrow> memStore" where
  "step ms (OpGet key) = snd (Get ms key)"
| "step ms (OpSetNX key v) = snd (SetNX ms key v)"
| "step ms (OpCompareAndSwap key old new) = snd (CompareAndSwap ms key old new)"

definition run :: "memStore \<Rightarrow> op list \<Rightarrow> memStore" where
  "run ms ops = foldl step ms ops"

fun key_of :: "op \<Rightarrow> string" where
  "key_of (OpGet key) = key"
| "key_of (OpSetNX key v) = key"
| "key_of (OpCompareAndSwap key old new) = key"

fun is_SetNX :: "op \<Rightarrow> bool" where
  "is_SetNX (OpSetNX key v) = True"
| "is_SetNX _ = False"

text \<open>The keys that the \<^verbatim>\<open>SetNX\<close> calls of a run were given.\<close>

definition inserted :: "op list \<Rightarrow> string list" where
  "inserted ops = map key_of (filter is_SetNX ops)"

text \<open>
  The touches of a run, in the order in which they happen. This is read off the calls
  alone, not off the cache: a \<^verbatim>\<open>SetNX\<close> touches its key (it inserts the key or finds
  it), and a \<^verbatim>\<open>Get\<close> or \<^verbatim>\<open>CompareAndSwap\<close> touches its key when the key was touched
  before, that is, when it has been inserted. On a key that was never inserted they miss
  and touch nothing.
\<close>

definition touch :: "string list \<Rightarrow> op \<Rightarrow> string list" where
  "touch tr op = (if is_SetNX op \<or> key_of op \<in> set tr then tr @ [key_of op] else tr)"

definition touches :: "op list \<Rightarrow> string list" where
  "touches ops = foldl touch [] ops"

text \<open>
  The least recently touched key of a sequence of touches: \<open>remdups\<close> keeps the last
  touch of every key, in order, so its head is the key whose last touch is the oldest.
\<close>

definition least_recent :: "string list \<Rightarrow> string" where
  "least_recent tr = hd (remdups tr)"

text \<open>
  What a bounded store of capacity \<open>K\<close> looks like after the touches \<open>tr\<close>, as long as
  nothing has been evicted: the cache lists the keys by their last touch, the latest
  first, and every pointer in it refers to a cell that has been allocated.
\<close>

definition tracked :: "int \<Rightarrow> memStore \<Rightarrow> string list \<Rightarrow> bool" where
  "tracked K ms tr =
     (case keys ms of
        None \<Rightarrow> False
      | Some c \<Rightarrow> size_c c = K \<and> map fst (evictList c) = rev (remdups tr) \<and>
          (\<forall>e \<in> set (evictList c). snd e < fresh ms))"

text \<open>
  The bounded branch of \<^verbatim>\<open>NewMemStore\<close> (the body of \<^verbatim>\<open>if maxKeys > 0\<close>), as a
  function of what \<^verbatim>\<open>lru.New\<close> returned: an error of the constructor is returned with
  a nil store, otherwise the store is built around the cache.
\<close>

definition bounded_from :: "Cache option \<times> error option \<Rightarrow> memStore option \<times> error option" where
  "bounded_from r =
     (case r of
        (_, Some err) \<Rightarrow> (None, Some err)
      | (ks, None) \<Rightarrow>
          (Some \<lparr>keys = ks, m = Map.empty, cells = (\<lambda>_. 0), fresh = 0\<rparr>, None))"

subsection \<open>Example stores\<close>

text \<open>The stores that \<^verbatim>\<open>NewMemStore(0)\<close> and \<^verbatim>\<open>NewMemStore(2)\<close> return.\<close>

definition new0 :: memStore where
  "new0 = \<lparr>keys = None, m = Map.empty, cells = (\<lambda>_. 0), fresh = 0\<rparr>"

definition new2 :: memStore where
  "new2 = \<lparr>keys = Some \<lparr>size_c = 2, evictList = []\<rparr>, m = Map.empty,
           cells = (\<lambda>_. 0), fresh = 0\<rparr>"

text \<open>Three pairs with different keys, and the stores holding the first or the first two.\<close>

definition abc :: "(string \<times> int64) list" where
  "abc = [(''a'', 1), (''b'', 2), (''c'', 3)]"

definition a0 :: memStore where
  "a0 = SetNX_all new0 [(''a'', 1)]"

definition ab2 :: memStore where
  "ab2 = SetNX_all new2 [(''a'', 1), (''b'', 2)]"

text \<open>Two runs on a store of capacity 2: a and b inserted, and then a read again.\<close>

definition ab_only :: "op list" where
  "ab_only = [OpSetNX ''a'' 1, OpSetNX ''b'' 2]"

definition ab_get_a :: "op list" where
  "ab_get_a = [OpSetNX ''a'' 1, OpSetNX ''b'' 2, OpGet ''a'']"

section \<open>Basic facts\<close>

subsection \<open>The cache\<close>

lemma map_of_removeKey: "k \<noteq> key \<Longrightarrow> map_of (removeKey key l) k = map_of l k"
  by (induction l) (auto simp: removeKey_def)

lemma entry_lru_Add_new:
  "map_of (evictList c) key = None \<Longrightarrow> 0 < size_c c \<Longrightarrow>
   map_of (evictList (lru_Add c key p)) key = Some p"
  by (cases "evictList c") (auto simp: lru_Add_def Let_def)

lemma size_c_lru_Add: "size_c (lru_Add c key p) = size_c c"
  by (simp add: lru_Add_def Let_def split: option.splits)

text \<open>Adding to a cache of at most \<open>K\<close> entries keeps the \<open>K\<close> newest ones.\<close>

lemma evict_take:
  assumes "0 < K"
  shows "(if int (length (x # take (nat K) xs)) > K then butlast (x # take (nat K) xs)
          else x # take (nat K) xs) = take (nat K) (x # xs)"
proof (cases "nat K \<le> length xs")
  case True
  obtain n where n: "nat K = Suc n" using assms by (cases "nat K") auto
  have "butlast (x # take (nat K) xs) = take (nat K) (x # take (nat K) xs)"
    using True by (simp add: butlast_conv_take)
  also have "\<dots> = take (nat K) (x # xs)" by (simp add: n min_def)
  finally show ?thesis using True assms by simp
next
  case False
  then show ?thesis using assms by simp
qed

lemma lru_Add_new:
  assumes "0 < K" "map_of (take (nat K) l) key = None"
  shows "lru_Add \<lparr>size_c = K, evictList = take (nat K) l\<rparr> key p =
         \<lparr>size_c = K, evictList = take (nat K) ((key, p) # l)\<rparr>"
proof (cases "K < int (length ((key, p) # take (nat K) l))")
  case True
  with evict_take [OF assms(1), of "(key, p)" l]
  have "butlast ((key, p) # take (nat K) l) = take (nat K) ((key, p) # l)"
    by (simp only: if_True)
  with True show ?thesis
    unfolding lru_Add_def Let_def
    by (simp only: Cache.select_convs assms(2) option.case Cache.update_convs if_True)
next
  case False
  with evict_take [OF assms(1), of "(key, p)" l]
  have "(key, p) # take (nat K) l = take (nat K) ((key, p) # l)"
    by (simp only: if_False)
  with False show ?thesis
    unfolding lru_Add_def Let_def
    by (simp only: Cache.select_convs assms(2) option.case Cache.update_convs if_False)
qed

subsection \<open>The lookup helper\<close>

lemma fst_get: "fst (get ms key b) = entry ms key"
  by (simp add: get_def entry_def lru_Get_def split: option.splits)

lemma get_conv: "get ms key b = (entry ms key, snd (get ms key b))"
  using fst_get [of ms key b] by (cases "get ms key b") simp

lemma entry_get: "entry (snd (get ms key b)) k = entry ms k"
  by (simp add: get_def entry_def lru_Get_def map_of_removeKey split: option.splits)

lemma cells_get: "cells (snd (get ms key b)) = cells ms"
  by (simp add: get_def lru_Get_def split: option.splits)

lemma counter_get: "counter (snd (get ms key b)) k = counter ms k"
  by (simp add: counter_def entry_get cells_get)

lemma sized_get: "sized (snd (get ms key b)) = sized ms"
  by (simp add: get_def sized_def lru_Get_def split: option.splits)

lemma get_absent: "entry ms key = None \<Longrightarrow> get ms key b = (None, ms)"
  by (auto simp: get_def entry_def lru_Get_def split: option.splits)

lemma get_unbounded: "keys ms = None \<Longrightarrow> get ms key b = (m ms key, ms)"
  by (simp add: get_def)

lemma get_hit:
  "keys ms = Some c \<Longrightarrow> entry ms key = Some p \<Longrightarrow>
   get ms key b =
     (Some p, ms\<lparr>keys := Some (c\<lparr>evictList := (key, p) # removeKey key (evictList c)\<rparr>)\<rparr>)"
  by (simp add: get_def entry_def lru_Get_def)

lemma entry_cells_update: "entry (ms\<lparr>cells := c\<rparr>) k = entry ms k"
  by (simp add: entry_def split: option.splits)

subsection \<open>The three operations, by whether the key has an entry\<close>

lemma Get_result:
  "fst (Get ms key) =
     (case counter ms key of None \<Rightarrow> (0, Some ErrNoSuchKey) | Some v \<Rightarrow> (v, None))"
  apply (subst Get_def)
  apply (subst get_conv)
  apply (simp add: counter_def cells_get split: option.splits)
  done

lemma snd_Get: "snd (Get ms key) = snd (get ms key False)"
  apply (subst Get_def)
  apply (subst get_conv)
  apply (simp split: option.splits)
  done

lemma Get_ok_iff: "snd (fst (Get ms k)) = None \<longleftrightarrow> entry ms k \<noteq> None"
  by (simp add: Get_result counter_def split: option.splits)

lemma SetNX_present:
  "entry ms key \<noteq> None \<Longrightarrow> SetNX ms key v = ((False, None), snd (get ms key False))"
  apply (subst SetNX_def)
  apply (subst get_conv)
  apply simp
  done

lemma SetNX_absent:
  "entry ms key = None \<Longrightarrow>
   SetNX ms key v =
     ((True, None),
      (case keys ms of
         Some c \<Rightarrow> ms\<lparr>cells := (cells ms)(fresh ms := v), fresh := Suc (fresh ms),
                      keys := Some (lru_Add c key (fresh ms))\<rparr>
       | None \<Rightarrow> ms\<lparr>cells := (cells ms)(fresh ms := v), fresh := Suc (fresh ms),
                    m := (m ms)(key \<mapsto> fresh ms)\<rparr>))"
  by (simp add: SetNX_def get_absent Let_def split: option.splits)

lemma counter_SetNX_absent:
  assumes "entry ms key = None" "sized ms"
  shows "counter (snd (SetNX ms key v)) key = Some v"
proof (cases "keys ms")
  case None
  then show ?thesis using assms
    by (simp add: SetNX_absent counter_def entry_def)
next
  case (Some c)
  then have "map_of (evictList c) key = None" "0 < size_c c"
    using assms by (simp_all add: entry_def sized_def)
  then show ?thesis using assms Some
    by (simp add: SetNX_absent counter_def entry_def entry_lru_Add_new)
qed

lemma CompareAndSwap_conv:
  "CompareAndSwap ms key old new =
     (case entry ms key of
        None \<Rightarrow> ((False, Some ErrNoSuchKey), snd (get ms key False))
      | Some p \<Rightarrow>
          if cells ms p = old
          then ((True, None), (snd (get ms key False))\<lparr>cells := (cells ms)(p := new)\<rparr>)
          else ((False, None), snd (get ms key False)))"
  apply (subst CompareAndSwap_def)
  apply (subst get_conv)
  apply (simp add: CompareAndSwapInt64_def cells_get split: option.splits)
  done

text \<open>
  A store made by \<^verbatim>\<open>NewMemStore\<close> has a cache of positive size, if it has one, and no
  operation changes the size.
\<close>

lemma sized_NewMemStore: "NewMemStore maxKeys = (Some ms, e) \<Longrightarrow> sized ms"
  by (auto simp: NewMemStore_def lru_New_def sized_def split: if_splits)

lemma sized_Get: "sized (snd (Get ms key)) = sized ms"
  by (simp add: snd_Get sized_get)

lemma sized_SetNX: "sized (snd (SetNX ms key v)) = sized ms"
proof (cases "entry ms key")
  case None
  then show ?thesis
    by (simp add: SetNX_absent sized_def size_c_lru_Add split: option.splits)
next
  case (Some p)
  then show ?thesis by (simp add: SetNX_present sized_get)
qed

lemma sized_CompareAndSwap: "sized (snd (CompareAndSwap ms key old new)) = sized ms"
proof -
  have "sized (s\<lparr>cells := c\<rparr>) = sized s" for s c
    by (simp add: sized_def split: option.splits)
  then show ?thesis
    by (simp add: CompareAndSwap_conv sized_get split: option.splits)
qed

subsection \<open>Runs of insertions\<close>

lemma SetNX_all_append: "SetNX_all ms (xs @ ys) = SetNX_all (SetNX_all ms xs) ys"
  by (induction ms xs rule: SetNX_all.induct) simp_all

lemma slots_snoc: "slots (kvs @ [(k, v)]) = (k, length kvs) # slots kvs"
  by (simp add: slots_def)

lemma contents_snoc: "(contents kvs)(length kvs := v) = contents (kvs @ [(k, v)])"
  by (auto simp: contents_def fun_eq_iff nth_append)

lemma map_fst_slots: "map fst (slots kvs) = rev (map fst kvs)"
  by (simp add: slots_def rev_map [symmetric] map_fst_zip)

lemma fst_set_slots: "fst ` set (slots kvs) = fst ` set kvs"
proof -
  have "fst ` set (slots kvs) = set (map fst (slots kvs))" by simp
  also have "\<dots> = set (rev (map fst kvs))" by (simp only: map_fst_slots)
  also have "\<dots> = fst ` set kvs" by simp
  finally show ?thesis .
qed

lemma map_of_take_None: "k \<notin> fst ` set l \<Longrightarrow> map_of (take n l) k = None"
  by (force simp: map_of_eq_None_iff dest: in_set_takeD)

lemma map_of_slots:
  assumes "distinct (map fst kvs)" "i < length kvs"
  shows "map_of (slots kvs) (fst (kvs ! i)) = Some i"
proof -
  have "zip (map fst kvs) [0..<length kvs] ! i = (fst (kvs ! i), i)"
    using assms(2) by simp
  moreover have "i < length (zip (map fst kvs) [0..<length kvs])"
    using assms(2) by simp
  ultimately have "(fst (kvs ! i), i) \<in> set (zip (map fst kvs) [0..<length kvs])"
    by (metis nth_mem)
  then have "(fst (kvs ! i), i) \<in> set (slots kvs)" by (simp add: slots_def)
  moreover have "distinct (map fst (slots kvs))"
    using assms(1) by (simp add: map_fst_slots)
  ultimately show ?thesis by (rule map_of_is_SomeI [rotated])
qed

text \<open>With one pair more than the cache holds, the oldest pair is the one that is gone.\<close>

lemma slots_Cons:
  "slots (kv # rest) = rev (zip (map fst rest) [1..<Suc (length rest)]) @ [(fst kv, 0)]"
  by (simp add: slots_def upt_conv_Cons del: upt_Suc)

lemma take_slots_full:
  "take (length rest) (slots (kv # rest)) = rev (zip (map fst rest) [1..<Suc (length rest)])"
  by (simp add: slots_Cons del: upt_Suc)

lemma map_of_shifted:
  assumes "distinct (map fst rest)" "j < length rest"
  shows "map_of (rev (zip (map fst rest) [1..<Suc (length rest)])) (fst (rest ! j)) =
         Some (Suc j)"
proof -
  have "zip (map fst rest) [1..<Suc (length rest)] ! j = (fst (rest ! j), Suc j)"
    using assms(2) by (simp del: upt_Suc)
  moreover have "j < length (zip (map fst rest) [1..<Suc (length rest)])"
    using assms(2) by (simp del: upt_Suc)
  ultimately have "(fst (rest ! j), Suc j) \<in> set (zip (map fst rest) [1..<Suc (length rest)])"
    by (metis nth_mem)
  then have "(fst (rest ! j), Suc j) \<in> set (rev (zip (map fst rest) [1..<Suc (length rest)]))"
    by simp
  moreover have "distinct (map fst (rev (zip (map fst rest) [1..<Suc (length rest)])))"
    using assms(1) by (simp add: rev_map [symmetric] map_fst_zip del: upt_Suc)
  ultimately show ?thesis by (rule map_of_is_SomeI [rotated])
qed

lemma fst_set_shifted:
  "fst ` set (rev (zip (map fst rest) [1..<Suc (length rest)])) = fst ` set rest"
proof -
  have "fst ` set (rev (zip (map fst rest) [1..<Suc (length rest)])) =
        set (map fst (zip (map fst rest) [1..<Suc (length rest)]))" by simp
  also have "\<dots> = set (map fst rest)"
    by (simp only: map_fst_zip length_map length_upt diff_Suc_1)
  also have "\<dots> = fst ` set rest" by simp
  finally show ?thesis .
qed

text \<open>
  The store after a run of insertions with pairwise different keys into a new bounded
  store: the cache keeps the \<open>K\<close> newest keys. The induction adds the pairs at the end
  of the list, as the run does.
\<close>

lemma bounded_run:
  assumes "0 < K" "distinct (map fst kvs)"
  shows "SetNX_all \<lparr>keys = Some \<lparr>size_c = K, evictList = []\<rparr>, m = Map.empty,
                    cells = (\<lambda>_. 0), fresh = 0\<rparr> kvs =
         \<lparr>keys = Some \<lparr>size_c = K, evictList = take (nat K) (slots kvs)\<rparr>, m = Map.empty,
          cells = contents kvs, fresh = length kvs\<rparr>"
  using assms(2)
proof (induction kvs rule: rev_induct)
  case Nil
  show ?case by (simp add: slots_def contents_def)
next
  case (snoc kv kvs)
  obtain k v where kv: "kv = (k, v)" by (cases kv)
  let ?s = "\<lparr>keys = Some \<lparr>size_c = K, evictList = take (nat K) (slots kvs)\<rparr>,
             m = Map.empty, cells = contents kvs, fresh = length kvs\<rparr>"
  from snoc.prems have k: "k \<notin> fst ` set kvs" and d: "distinct (map fst kvs)"
    by (simp_all add: kv)
  have absent: "map_of (take (nat K) (slots kvs)) k = None"
    using k by (simp add: map_of_take_None fst_set_slots)
  then have e: "entry ?s k = None" by (simp add: entry_def)
  have "SetNX_all \<lparr>keys = Some \<lparr>size_c = K, evictList = []\<rparr>, m = Map.empty,
                    cells = (\<lambda>_. 0), fresh = 0\<rparr> (kvs @ [kv]) = snd (SetNX ?s k v)"
    using snoc.IH [OF d] by (simp add: SetNX_all_append kv)
  also have "\<dots> = \<lparr>keys = Some \<lparr>size_c = K, evictList = take (nat K) (slots (kvs @ [kv]))\<rparr>,
          m = Map.empty, cells = contents (kvs @ [kv]), fresh = length (kvs @ [kv])\<rparr>"
    by (simp add: SetNX_absent [OF e] kv slots_snoc contents_snoc [of kvs v k]
          lru_Add_new [OF assms(1) absent]
        del: take_Suc_Cons take_Cons_numeral)
  finally show ?case .
qed

text \<open>The same run into a new unbounded store: the map keeps every key.\<close>

lemma unbounded_run:
  assumes "distinct (map fst kvs)"
  shows "SetNX_all \<lparr>keys = None, m = Map.empty, cells = (\<lambda>_. 0), fresh = 0\<rparr> kvs =
         \<lparr>keys = None, m = map_of (slots kvs), cells = contents kvs, fresh = length kvs\<rparr>"
  using assms
proof (induction kvs rule: rev_induct)
  case Nil
  show ?case by (simp add: slots_def contents_def)
next
  case (snoc kv kvs)
  obtain k v where kv: "kv = (k, v)" by (cases kv)
  let ?s = "\<lparr>keys = None, m = map_of (slots kvs), cells = contents kvs,
             fresh = length kvs\<rparr>"
  from snoc.prems have k: "k \<notin> fst ` set kvs" and d: "distinct (map fst kvs)"
    by (simp_all add: kv)
  have "map_of (slots kvs) k = None"
    using k by (simp add: map_of_eq_None_iff fst_set_slots)
  then have e: "entry ?s k = None" by (simp add: entry_def)
  have "SetNX_all \<lparr>keys = None, m = Map.empty, cells = (\<lambda>_. 0), fresh = 0\<rparr> (kvs @ [kv]) =
        snd (SetNX ?s k v)"
    using snoc.IH [OF d] by (simp add: SetNX_all_append kv)
  also have "\<dots> = \<lparr>keys = None, m = map_of (slots (kvs @ [kv])),
          cells = contents (kvs @ [kv]), fresh = length (kvs @ [kv])\<rparr>"
    by (simp add: SetNX_absent [OF e] kv slots_snoc contents_snoc [of kvs v k])
  finally show ?case .
qed

subsection \<open>Runs of calls and the order of touches\<close>

lemma rev_remdups_snoc:
  "rev (remdups (tr @ [k])) = k # filter (\<lambda>x. x \<noteq> k) (rev (remdups tr))"
proof -
  have "remdups (tr @ [k]) = filter (\<lambda>x. x \<noteq> k) (remdups tr) @ [k]"
    by (induction tr) auto
  then show ?thesis by (simp add: rev_filter)
qed

lemma map_fst_removeKey: "map fst (removeKey k l) = filter (\<lambda>x. x \<noteq> k) (map fst l)"
  by (induction l) (auto simp: removeKey_def)

lemma set_removeKey: "set (removeKey k l) \<subseteq> set l"
  by (auto simp: removeKey_def)

lemma tracked_entry:
  assumes "tracked K ms tr"
  shows "entry ms k \<noteq> None \<longleftrightarrow> k \<in> set tr"
proof -
  obtain c where c: "keys ms = Some c" "map fst (evictList c) = rev (remdups tr)"
    using assms by (auto simp: tracked_def split: option.splits)
  have "entry ms k \<noteq> None \<longleftrightarrow> k \<in> fst ` set (evictList c)"
    by (simp add: entry_def c(1) map_of_eq_None_iff)
  also have "fst ` set (evictList c) = set (map fst (evictList c))" by simp
  also have "\<dots> = set tr" by (simp only: c(2)) simp
  finally show ?thesis .
qed

lemma tracked_hit:
  assumes "tracked K ms tr" "k \<in> set tr"
  shows "tracked K (snd (get ms k b)) (tr @ [k])"
proof -
  obtain c where c: "keys ms = Some c" "size_c c = K"
      "map fst (evictList c) = rev (remdups tr)" "\<forall>e \<in> set (evictList c). snd e < fresh ms"
    using assms(1) by (auto simp: tracked_def split: option.splits)
  obtain p where p: "entry ms k = Some p"
    using tracked_entry [OF assms(1), of k] assms(2) by auto
  then have mem: "(k, p) \<in> set (evictList c)"
    by (simp add: entry_def c(1) map_of_SomeD)
  show ?thesis
    using c mem set_removeKey [of k "evictList c"]
    by (auto simp: get_hit [OF c(1) p] tracked_def rev_remdups_snoc map_fst_removeKey
          simp del: remdups_append)
qed

lemma tracked_cells: "tracked K (ms\<lparr>cells := c\<rparr>) tr = tracked K ms tr"
  by (simp add: tracked_def split: option.splits)

lemma tracked_insert:
  assumes "tracked K ms tr" "k \<notin> set tr" "int (length (remdups tr)) < K"
  shows "tracked K (snd (SetNX ms k v)) (tr @ [k])"
proof -
  obtain c where c: "keys ms = Some c" "size_c c = K"
      "map fst (evictList c) = rev (remdups tr)" "\<forall>e \<in> set (evictList c). snd e < fresh ms"
    using assms(1) by (auto simp: tracked_def split: option.splits)
  have e: "entry ms k = None"
    using tracked_entry [OF assms(1), of k] assms(2) by simp
  then have none: "map_of (evictList c) k = None" by (simp add: entry_def c(1))
  have "length (evictList c) = length (remdups tr)"
    using c(3) by (metis length_map length_rev)
  then have room: "\<not> int (length ((k, fresh ms) # evictList c)) > size_c c"
    using assms(3) c(2) by simp
  have add: "lru_Add c k (fresh ms) = c\<lparr>evictList := (k, fresh ms) # evictList c\<rparr>"
    using none room by (simp add: lru_Add_def Let_def)
  have "filter (\<lambda>x. x \<noteq> k) (rev (remdups tr)) = rev (remdups tr)"
    using assms(2) by (auto intro: filter_True)
  then show ?thesis
    using c by (auto simp: SetNX_absent [OF e] add tracked_def rev_remdups_snoc
          simp del: remdups_append)
qed

lemma length_remdups_snoc_new:
  "k \<notin> set tr \<Longrightarrow> length (remdups (tr @ [k])) = Suc (length (remdups tr))"
  by (simp add: length_remdups_card_conv)

lemma tracked_step:
  assumes "tracked K ms tr" "int (length (remdups (touch tr op))) \<le> K"
  shows "tracked K (step ms op) (touch tr op)"
proof (cases "key_of op \<in> set tr")
  case True
  then have t: "touch tr op = tr @ [key_of op]" by (simp add: touch_def)
  have e: "entry ms (key_of op) \<noteq> None"
    using tracked_entry [OF assms(1)] True by simp
  have hit: "tracked K (snd (get ms (key_of op) False)) (tr @ [key_of op])"
    using assms(1) True by (rule tracked_hit)
  show ?thesis
  proof (cases op)
    case (OpGet k)
    then show ?thesis using hit unfolding t by (simp add: snd_Get)
  next
    case (OpSetNX k v)
    then show ?thesis using hit e unfolding t by (simp add: SetNX_present)
  next
    case (OpCompareAndSwap k old new)
    then show ?thesis using hit e unfolding t
      by (auto simp: CompareAndSwap_conv tracked_cells)
  qed
next
  case False
  then have e: "entry ms (key_of op) = None"
    using tracked_entry [OF assms(1), of "key_of op"] by simp
  show ?thesis
  proof (cases op)
    case (OpGet k)
    then show ?thesis using assms(1) e False
      by (simp add: touch_def snd_Get get_absent)
  next
    case (OpSetNX k v)
    with assms(2) False have "int (length (remdups tr)) < K"
      by (simp add: touch_def length_remdups_snoc_new del: remdups_append)
    then show ?thesis using tracked_insert [OF assms(1) False, of v] OpSetNX
      by (simp add: touch_def)
  next
    case (OpCompareAndSwap k old new)
    then show ?thesis using assms(1) e False
      by (simp add: touch_def CompareAndSwap_conv get_absent)
  qed
qed

lemma set_touch: "set tr \<subseteq> set (touch tr op)"
  by (auto simp: touch_def)

lemma set_foldl_touch: "set tr \<subseteq> set (foldl touch tr ops)"
proof (induction ops arbitrary: tr)
  case Nil
  show ?case by simp
next
  case (Cons op ops)
  show ?case using set_touch [of tr op] Cons [of "touch tr op"] by simp
qed

lemma length_remdups_mono: "set xs \<subseteq> set ys \<Longrightarrow> length (remdups xs) \<le> length (remdups ys)"
  by (simp add: length_remdups_card_conv card_mono)

lemma tracked_foldl:
  assumes "tracked K ms tr" "int (length (remdups (foldl touch tr ops))) \<le> K"
  shows "tracked K (foldl step ms ops) (foldl touch tr ops)"
  using assms
proof (induction ops arbitrary: ms tr)
  case Nil
  then show ?case by simp
next
  case (Cons op ops)
  have "length (remdups (touch tr op)) \<le> length (remdups (foldl touch (touch tr op) ops))"
    using set_foldl_touch [of "touch tr op" ops] by (rule length_remdups_mono)
  with Cons.prems(2) have "int (length (remdups (touch tr op))) \<le> K" by simp
  with Cons.prems(1) have "tracked K (step ms op) (touch tr op)" by (rule tracked_step)
  then show ?case using Cons.IH Cons.prems(2) by simp
qed

lemma set_foldl_touch_inserted:
  "set (foldl touch tr ops) = set tr \<union> set (inserted ops)"
proof (induction ops arbitrary: tr)
  case Nil
  show ?case by (simp add: inserted_def)
next
  case (Cons op ops)
  have "set (touch tr op) \<union> set (inserted ops) = set tr \<union> set (inserted (op # ops))"
    by (auto simp: touch_def inserted_def)
  then show ?case by (simp add: Cons)
qed

lemma set_touches: "set (touches ops) = set (inserted ops)"
  by (simp add: touches_def set_foldl_touch_inserted)

lemma tracked_new:
  "0 < K \<Longrightarrow> tracked K \<lparr>keys = Some \<lparr>size_c = K, evictList = []\<rparr>, m = Map.empty,
                    cells = (\<lambda>_. 0), fresh = 0\<rparr> []"
  by (simp add: tracked_def)

lemma tracked_run:
  assumes "0 < K" "NewMemStore K = (Some ms0, None)" "card (set (inserted ops)) \<le> nat K"
  shows "tracked K (run ms0 ops) (touches ops)"
proof -
  have ms0: "ms0 = \<lparr>keys = Some \<lparr>size_c = K, evictList = []\<rparr>, m = Map.empty,
                    cells = (\<lambda>_. 0), fresh = 0\<rparr>"
    using assms(1,2) by (simp add: NewMemStore_def lru_New_def)
  have "length (remdups (touches ops)) = card (set (inserted ops))"
    by (simp add: length_remdups_card_conv set_touches)
  then have "int (length (remdups (foldl touch [] ops))) \<le> K"
    using assms(1,3) by (simp add: touches_def le_nat_iff)
  with tracked_new [OF assms(1)] show ?thesis
    unfolding run_def touches_def ms0 by (rule tracked_foldl)
qed

lemma least_recent_last_touch:
  "tr \<noteq> [] \<Longrightarrow>
   \<exists>pre post. tr = pre @ least_recent tr # post \<and> least_recent tr \<notin> set post \<and>
     set pre \<subseteq> insert (least_recent tr) (set post)"
proof (induction tr)
  case Nil
  then show ?case by simp
next
  case (Cons a tr)
  show ?case
  proof (cases "a \<in> set tr")
    case True
    then have ne: "tr \<noteq> []" by auto
    from True have lr: "least_recent (a # tr) = least_recent tr"
      by (simp add: least_recent_def)
    from Cons.IH [OF ne] obtain pre post where
      p: "tr = pre @ least_recent tr # post" "least_recent tr \<notin> set post"
         "set pre \<subseteq> insert (least_recent tr) (set post)"
      by blast
    have "a \<in> set pre \<union> insert (least_recent tr) (set post)"
      using True by (subst (asm) p(1)) auto
    then have "set (a # pre) \<subseteq> insert (least_recent tr) (set post)"
      using p(3) by auto
    moreover have "a # tr = (a # pre) @ least_recent tr # post"
      using p(1) by simp
    ultimately show ?thesis
      unfolding lr using p(2) by blast
  next
    case False
    then have "least_recent (a # tr) = a" by (simp add: least_recent_def)
    then have "a # tr = [] @ least_recent (a # tr) # tr \<and> least_recent (a # tr) \<notin> set tr \<and>
      set [] \<subseteq> insert (least_recent (a # tr)) (set tr)"
      using False by simp
    then show ?thesis by blast
  qed
qed

lemma map_of_butlast:
  assumes "distinct (map fst l)" "l \<noteq> []"
  shows "map_of (butlast l) k = (if k = fst (last l) then None else map_of l k)"
proof -
  have l: "l = butlast l @ [last l]" using assms(2) by simp
  have "distinct (map fst (butlast l @ [last l]))" using assms(1) l by simp
  then have notin: "fst (last l) \<notin> fst ` set (butlast l)" by auto
  have "map_of l k = map_of (butlast l @ [last l]) k" using l by simp
  also have "\<dots> = (case map_of (butlast l) k of None \<Rightarrow> map_of [last l] k | Some p \<Rightarrow> Some p)"
    by (simp add: map_add_def split: option.splits)
  finally have m: "map_of l k =
      (case map_of (butlast l) k of None \<Rightarrow> map_of [last l] k | Some p \<Rightarrow> Some p)" .
  show ?thesis
  proof (cases "k = fst (last l)")
    case True
    then show ?thesis using notin by (simp add: map_of_eq_None_iff)
  next
    case False
    then have "map_of [last l] k = None" by (cases "last l") auto
    then show ?thesis using m False by (simp split: option.splits)
  qed
qed

text \<open>The insertion that does not fit: the entry at the back goes.\<close>

lemma tracked_evict:
  assumes "tracked K ms tr" "0 < K" "int (length (remdups tr)) = K" "k' \<notin> set tr"
  shows "fst (SetNX ms k' v') = (True, None)"
    and "entry (snd (SetNX ms k' v')) k =
           (if k = k' then Some (fresh ms)
            else if k = least_recent tr then None else entry ms k)"
    and "cells (snd (SetNX ms k' v')) = (cells ms)(fresh ms := v')"
proof -
  obtain c where c: "keys ms = Some c" "size_c c = K"
      "map fst (evictList c) = rev (remdups tr)" "\<forall>e \<in> set (evictList c). snd e < fresh ms"
    using assms(1) by (auto simp: tracked_def split: option.splits)
  have e: "entry ms k' = None"
    using tracked_entry [OF assms(1), of k'] assms(4) by simp
  then have none: "map_of (evictList c) k' = None" by (simp add: entry_def c(1))
  have len: "length (evictList c) = length (remdups tr)"
    using c(3) by (metis length_map length_rev)
  then have ne: "evictList c \<noteq> []" using assms(2,3) by auto
  have full: "int (length ((k', fresh ms) # evictList c)) > size_c c"
    using assms(3) c(2) len by simp
  have add: "lru_Add c k' (fresh ms) = c\<lparr>evictList := (k', fresh ms) # butlast (evictList c)\<rparr>"
    using none full ne by (simp add: lru_Add_def Let_def)
  have d: "distinct (map fst (evictList c))" by (simp add: c(3))
  have "fst (last (evictList c)) = last (map fst (evictList c))"
    using ne by (simp add: last_map)
  also have "\<dots> = hd (remdups tr)"
    using ne len by (simp add: c(3) last_rev)
  finally have lastkey: "fst (last (evictList c)) = least_recent tr"
    by (simp add: least_recent_def)
  show "fst (SetNX ms k' v') = (True, None)" by (simp add: SetNX_absent [OF e])
  show "cells (snd (SetNX ms k' v')) = (cells ms)(fresh ms := v')"
    by (simp add: SetNX_absent [OF e] c(1))
  show "entry (snd (SetNX ms k' v')) k =
           (if k = k' then Some (fresh ms)
            else if k = least_recent tr then None else entry ms k)"
    using map_of_butlast [OF d ne, of k]
    by (simp add: SetNX_absent [OF e] c(1) add entry_def lastkey)
qed

lemma tracked_below_fresh:
  assumes "tracked K ms tr" "entry ms k = Some p"
  shows "p < fresh ms"
proof -
  obtain c where c: "keys ms = Some c" "\<forall>e \<in> set (evictList c). snd e < fresh ms"
    using assms(1) by (auto simp: tracked_def split: option.splits)
  have "(k, p) \<in> set (evictList c)"
    using assms(2) by (simp add: entry_def c(1) map_of_SomeD)
  then show ?thesis using c(2) by auto
qed

subsection \<open>The example stores, evaluated\<close>

lemmas run_defs = SetNX_def get_def lru_Get_def lru_Add_def removeKey_def Let_def Get_def
  CompareAndSwap_def CompareAndSwapInt64_def NewMemStore_def lru_New_def entry_def
  counter_def sized_def

lemmas trace_defs = inserted_def touches_def touch_def least_recent_def run_def

lemma a0_eq:
  "a0 = \<lparr>keys = None, m = [''a'' \<mapsto> 0], cells = ((\<lambda>_. 0)(0 := 1)), fresh = 1\<rparr>"
  by (simp add: a0_def new0_def run_defs)

lemma ab2_eq:
  "ab2 = \<lparr>keys = Some \<lparr>size_c = 2, evictList = [(''b'', 1), (''a'', 0)]\<rparr>, m = Map.empty,
          cells = ((\<lambda>_. 0)(0 := 1, 1 := 2)), fresh = 2\<rparr>"
  by (simp add: ab2_def new2_def run_defs)

section \<open>The claims\<close>

subsection \<open>SetNX\<close>

text \<open>
  C1, as amended. For every store whose cache, if it has one, has a positive size, and
  every key: \<^verbatim>\<open>SetNX(key, value)\<close> returns \<^verbatim>\<open>(true, nil)\<close> exactly when the key has no
  entry, and then the value is the key's counter afterwards; it returns \<^verbatim>\<open>(false, nil)\<close>
  exactly when the key has an entry, and then every key has the entry and the counter it
  had before. An unbounded store is then unchanged altogether; in a bounded store the
  one change is that the key's entry moves to the front of the recency order. The error
  is nil in both outcomes.
\<close>

theorem SetNX_creates_iff_absent:
  "sized ms \<Longrightarrow>
   (fst (SetNX ms key v) = (True, None) \<longleftrightarrow> entry ms key = None) \<and>
   (fst (SetNX ms key v) = (False, None) \<longleftrightarrow> entry ms key \<noteq> None) \<and>
   snd (fst (SetNX ms key v)) = None \<and>
   (entry ms key = None \<longrightarrow> counter (snd (SetNX ms key v)) key = Some v) \<and>
   (entry ms key \<noteq> None \<longrightarrow>
      (\<forall>k. entry (snd (SetNX ms key v)) k = entry ms k) \<and>
      (\<forall>k. counter (snd (SetNX ms key v)) k = counter ms k) \<and>
      (keys ms = None \<longrightarrow> snd (SetNX ms key v) = ms) \<and>
      (\<forall>c p. keys ms = Some c \<and> entry ms key = Some p \<longrightarrow>
         snd (SetNX ms key v) =
           ms\<lparr>keys := Some (c\<lparr>evictList := (key, p) # removeKey key (evictList c)\<rparr>)\<rparr>))"
proof (cases "entry ms key = None")
  case True
  assume "sized ms"
  then have "counter (snd (SetNX ms key v)) key = Some v"
    using True by (simp add: counter_SetNX_absent)
  moreover have "fst (SetNX ms key v) = (True, None)"
    using True by (simp add: SetNX_absent)
  ultimately show ?thesis using True by simp
next
  case False
  then have "SetNX ms key v = ((False, None), snd (get ms key False))"
    by (rule SetNX_present)
  with False show ?thesis
    by (auto simp: entry_get counter_get get_unbounded get_hit)
qed

text \<open>
  Witness for C1, in both modes: a new key and a present key in the bounded store
  holding a and b, and a present key in the unbounded store holding a.
\<close>

theorem SetNX_creates_iff_absent_witness:
  "sized ab2 \<and> entry ab2 ''c'' = None \<and>
   fst (SetNX ab2 ''c'' 3) = (True, None) \<and>
   counter (snd (SetNX ab2 ''c'' 3)) ''c'' = Some 3 \<and>
   entry ab2 ''a'' = Some 0 \<and>
   fst (SetNX ab2 ''a'' 9) = (False, None) \<and>
   counter (snd (SetNX ab2 ''a'' 9)) ''a'' = Some 1 \<and>
   counter (snd (SetNX ab2 ''a'' 9)) ''b'' = Some 2 \<and>
   sized a0 \<and> keys a0 = None \<and> entry a0 ''a'' = Some 0 \<and>
   fst (SetNX a0 ''a'' 9) = (False, None) \<and> snd (SetNX a0 ''a'' 9) = a0"
proof -
  have h1: "sized ab2" and h2: "sized a0"
    by (simp_all add: ab2_eq a0_eq sized_def)
  have e: "entry ab2 ''c'' = None" "entry ab2 ''a'' = Some 0" "entry a0 ''a'' = Some 0"
    "keys a0 = None"
    by (simp_all add: ab2_eq a0_eq entry_def)
  have c: "counter ab2 ''a'' = Some 1" "counter ab2 ''b'' = Some 2"
    by (simp_all add: ab2_eq counter_def entry_def)
  from SetNX_creates_iff_absent [OF h1, of "''c''" 3]
    SetNX_creates_iff_absent [OF h1, of "''a''" 9]
    SetNX_creates_iff_absent [OF h2, of "''a''" 9]
  show ?thesis using h1 h2 e c by simp
qed

text \<open>
  Counterexample to C1 as stated: on the bounded store of capacity 2 that holds a and b,
  \<^verbatim>\<open>SetNX("a", 9)\<close> returns \<^verbatim>\<open>(false, nil)\<close> and yet changes the store. The change shows
  in what a later insertion evicts: without the call, inserting c evicts a; after the
  call, inserting c evicts b and a is still there.
\<close>

theorem SetNX_present_changes_bounded_store:
  "NewMemStore 2 = (Some new2, None) \<and>
   ab2 = SetNX_all new2 [(''a'', 1), (''b'', 2)] \<and>
   fst (SetNX ab2 ''a'' 9) = (False, None) \<and>
   snd (SetNX ab2 ''a'' 9) \<noteq> ab2 \<and>
   fst (Get (snd (SetNX ab2 ''c'' 3)) ''a'') = (0, Some ErrNoSuchKey) \<and>
   fst (Get (snd (SetNX (snd (SetNX ab2 ''a'' 9)) ''c'' 3)) ''a'') = (1, None)"
proof -
  have "ab2 = SetNX_all new2 [(''a'', 1), (''b'', 2)]" by (simp only: ab2_def)
  then show ?thesis by (simp add: ab2_eq new2_def run_defs)
qed

subsection \<open>CompareAndSwap\<close>

text \<open>
  C2. For every key that has an entry, \<^verbatim>\<open>CompareAndSwap(key, old, new)\<close> returns
  swapped = true exactly when the key's counter before the call equals \<open>old\<close>; the
  counter after the call is \<open>new\<close> when it swapped and is the counter from before when
  it did not; the error is nil in both cases.
\<close>

theorem CompareAndSwap_exact:
  "counter ms key = Some v \<Longrightarrow>
   fst (CompareAndSwap ms key old new) = (v = old, None) \<and>
   counter (snd (CompareAndSwap ms key old new)) key = Some (if v = old then new else v)"
  by (auto simp: CompareAndSwap_conv counter_def entry_get cells_get entry_cells_update)

text \<open>Witness for C2: a swap that succeeds and one that does not, on the counter of a.\<close>

theorem CompareAndSwap_exact_witness:
  "counter ab2 ''a'' = Some 1 \<and>
   fst (CompareAndSwap ab2 ''a'' 1 5) = (True, None) \<and>
   counter (snd (CompareAndSwap ab2 ''a'' 1 5)) ''a'' = Some 5 \<and>
   fst (CompareAndSwap ab2 ''a'' 4 5) = (False, None) \<and>
   counter (snd (CompareAndSwap ab2 ''a'' 4 5)) ''a'' = Some 1"
proof -
  have h: "counter ab2 ''a'' = Some 1"
    by (simp add: ab2_eq counter_def entry_def)
  from CompareAndSwap_exact [OF h, of 1 5] CompareAndSwap_exact [OF h, of 4 5] h
  show ?thesis by simp
qed

text \<open>
  C3, as amended. For every store in which the key "missing" has no entry (it was never
  set, or it was evicted), \<^verbatim>\<open>CompareAndSwap("missing", 0, 1)\<close> returns swapped = false
  together with the no-such-key error, and leaves the store as it was.
\<close>

theorem CompareAndSwap_missing_NoSuchKey:
  "entry ms ''missing'' = None \<Longrightarrow>
   CompareAndSwap ms ''missing'' 0 1 = ((False, Some ErrNoSuchKey), ms)"
  by (simp add: CompareAndSwap_conv get_absent)

text \<open>Witness for C3 as amended, on the store \<^verbatim>\<open>NewMemStore(0)\<close> returns.\<close>

theorem CompareAndSwap_missing_NoSuchKey_witness:
  "entry new0 ''missing'' = None \<and>
   CompareAndSwap new0 ''missing'' 0 1 = ((False, Some ErrNoSuchKey), new0)"
proof -
  have h: "entry new0 ''missing'' = None" by (simp add: new0_def entry_def)
  from CompareAndSwap_missing_NoSuchKey [OF h] h show ?thesis by simp
qed

text \<open>
  Counterexample to C3 as stated: on the new store \<^verbatim>\<open>NewMemStore(0)\<close> returns, where
  "missing" was never set, the call does not return \<^verbatim>\<open>(false, nil)\<close>; its error is the
  no-such-key error.
\<close>

theorem CompareAndSwap_missing_error_not_nil:
  "NewMemStore 0 = (Some new0, None) \<and>
   fst (CompareAndSwap new0 ''missing'' 0 1) = (False, Some ErrNoSuchKey) \<and>
   fst (CompareAndSwap new0 ''missing'' 0 1) \<noteq> (False, None)"
  by (simp add: new0_def run_defs)

text \<open>
  C4. For every store and every key with no entry, \<^verbatim>\<open>CompareAndSwap(key, old, new)\<close>
  fails with the no-such-key error (and changes nothing); when the key has an entry
  whose counter differs from \<open>old\<close>, the result is \<^verbatim>\<open>(false, nil)\<close>; the two results
  differ.
\<close>

theorem CompareAndSwap_absent_vs_mismatch:
  "(entry ms key = None \<longrightarrow>
      CompareAndSwap ms key old new = ((False, Some ErrNoSuchKey), ms)) \<and>
   (\<forall>v. counter ms key = Some v \<and> v \<noteq> old \<longrightarrow>
      fst (CompareAndSwap ms key old new) = (False, None)) \<and>
   (\<forall>ms' key' v. entry ms key = None \<and> counter ms' key' = Some v \<and> v \<noteq> old \<longrightarrow>
      fst (CompareAndSwap ms key old new) \<noteq> fst (CompareAndSwap ms' key' old new))"
proof -
  have absent: "CompareAndSwap ms key old new = ((False, Some ErrNoSuchKey), ms)"
    if "entry ms key = None"
    using that by (simp add: CompareAndSwap_conv get_absent)
  have mismatch: "fst (CompareAndSwap s k old new) = (False, None)"
    if "counter s k = Some v" "v \<noteq> old" for s k v
    using that by (auto simp: CompareAndSwap_conv counter_def)
  show ?thesis using absent mismatch by auto
qed

text \<open>
  Witness for C4: the key c, absent from the bounded store holding a and b, against the
  key a, present with counter 1, both swapped from 4 to 5.
\<close>

theorem CompareAndSwap_absent_vs_mismatch_witness:
  "entry ab2 ''c'' = None \<and>
   CompareAndSwap ab2 ''c'' 4 5 = ((False, Some ErrNoSuchKey), ab2) \<and>
   counter ab2 ''a'' = Some 1 \<and> (1 :: int64) \<noteq> 4 \<and>
   fst (CompareAndSwap ab2 ''a'' 4 5) = (False, None) \<and>
   fst (CompareAndSwap ab2 ''c'' 4 5) \<noteq> fst (CompareAndSwap ab2 ''a'' 4 5)"
proof -
  have h1: "entry ab2 ''c'' = None" by (simp add: ab2_eq entry_def)
  have h2: "counter ab2 ''a'' = Some 1" by (simp add: ab2_eq counter_def entry_def)
  have h3: "(1 :: int64) \<noteq> 4" by simp
  from CompareAndSwap_absent_vs_mismatch [of ab2 "''c''" 4 5]
    CompareAndSwap_absent_vs_mismatch [of ab2 "''a''" 4 5] h1 h2 h3
  show ?thesis by simp
qed

subsection \<open>Get\<close>

text \<open>
  C5. For every store and every key with no entry (never set, or evicted), \<^verbatim>\<open>Get(key)\<close>
  returns the no-such-key error, with the value 0 beside it, and changes nothing; for
  every key with an entry, it returns the key's counter with a nil error, and every
  key's counter is afterwards what it was before.
\<close>

theorem Get_NoSuchKey_or_counter:
  "(entry ms key = None \<longrightarrow> Get ms key = ((0, Some ErrNoSuchKey), ms)) \<and>
   (\<forall>v. counter ms key = Some v \<longrightarrow>
      fst (Get ms key) = (v, None) \<and>
      (\<forall>k. counter (snd (Get ms key)) k = counter ms k))"
proof (rule conjI)
  show "entry ms key = None \<longrightarrow> Get ms key = ((0, Some ErrNoSuchKey), ms)"
    by (simp add: Get_def get_absent)
  show "\<forall>v. counter ms key = Some v \<longrightarrow>
      fst (Get ms key) = (v, None) \<and>
      (\<forall>k. counter (snd (Get ms key)) k = counter ms k)"
    by (simp add: Get_result snd_Get counter_get)
qed

text \<open>
  Witness for C5: "missing" on the new unbounded store, and a, with counter 1, on the
  bounded store holding a and b.
\<close>

theorem Get_NoSuchKey_or_counter_witness:
  "entry new0 ''missing'' = None \<and>
   Get new0 ''missing'' = ((0, Some ErrNoSuchKey), new0) \<and>
   counter ab2 ''a'' = Some 1 \<and>
   fst (Get ab2 ''a'') = (1, None) \<and>
   counter (snd (Get ab2 ''a'')) ''a'' = Some 1 \<and>
   counter (snd (Get ab2 ''a'')) ''b'' = counter ab2 ''b''"
proof -
  have h1: "entry new0 ''missing'' = None" by (simp add: new0_def entry_def)
  have h2: "counter ab2 ''a'' = Some 1" by (simp add: ab2_eq counter_def entry_def)
  from Get_NoSuchKey_or_counter [of new0 "''missing''"]
    Get_NoSuchKey_or_counter [of ab2 "''a''"] h1 h2
  show ?thesis by simp
qed

subsection \<open>Eviction\<close>

text \<open>
  Insertions only. Let the store be the one \<^verbatim>\<open>NewMemStore(K)\<close> returns for \<open>K > 0\<close>,
  and let \<open>K + 1\<close> pairs with pairwise different keys be inserted with \<^verbatim>\<open>SetNX\<close>, one
  after the other and with no other call in between. Then \<^verbatim>\<open>Get\<close> finds exactly the
  \<open>K\<close> keys inserted last, each with the value it was inserted with, and the key
  inserted first is gone.
\<close>

lemma insertions_keep_newest:
  assumes "0 < K" "NewMemStore K = (Some ms0, None)"
    "distinct (map fst kvs)" "int (length kvs) = K + 1"
  shows "{k. snd (fst (Get (SetNX_all ms0 kvs) k)) = None} = fst ` set (tl kvs) \<and>
         card {k. snd (fst (Get (SetNX_all ms0 kvs) k)) = None} = nat K \<and>
         (\<forall>(k, v) \<in> set (tl kvs). fst (Get (SetNX_all ms0 kvs) k) = (v, None)) \<and>
         fst (Get (SetNX_all ms0 kvs) (fst (hd kvs))) = (0, Some ErrNoSuchKey) \<and>
         fst (SetNX (SetNX_all ms0 kvs) (fst (hd kvs)) v') = (True, None) \<and>
         fst (Get (snd (SetNX (SetNX_all ms0 kvs) (fst (hd kvs)) v')) (fst (hd kvs))) =
           (v', None) \<and>
         (\<forall>k'. k' \<notin> fst ` set kvs \<longrightarrow>
            fst (Get (SetNX_all ms0 kvs) k') = (0, Some ErrNoSuchKey) \<and>
            fst (SetNX (SetNX_all ms0 kvs) k' v') = (True, None))"
proof -
  have ms0: "ms0 = \<lparr>keys = Some \<lparr>size_c = K, evictList = []\<rparr>, m = Map.empty,
                    cells = (\<lambda>_. 0), fresh = 0\<rparr>"
    using assms(1,2) by (simp add: NewMemStore_def lru_New_def)
  obtain kv rest where kvs: "kvs = kv # rest" using assms(4,1) by (cases kvs) auto
  have len: "nat K = length rest" using assms(4) by (simp add: kvs)
  have d: "distinct (map fst rest)" and hd: "fst kv \<notin> fst ` set rest"
    using assms(3) by (simp_all add: kvs)
  let ?l = "rev (zip (map fst rest) [1..<Suc (length rest)])"
  let ?ms = "SetNX_all ms0 kvs"
  have ms: "?ms = \<lparr>keys = Some \<lparr>size_c = K, evictList = ?l\<rparr>, m = Map.empty,
          cells = contents kvs, fresh = length kvs\<rparr>"
  proof -
    have "take (nat K) (slots kvs) = ?l"
      by (simp only: len kvs take_slots_full)
    then show ?thesis
      by (simp only: ms0 bounded_run [OF assms(1,3)])
  qed
  have entry: "entry ?ms k = map_of ?l k" for k
    by (simp add: ms entry_def)
  have dom: "entry ?ms k \<noteq> None \<longleftrightarrow> k \<in> fst ` set rest" for k
    unfolding entry using fst_set_shifted [of rest]
    by (simp only: map_of_eq_None_iff) simp
  have 1: "{k. snd (fst (Get ?ms k)) = None} = fst ` set (tl kvs)"
    by (simp only: Get_ok_iff dom) (simp add: kvs)
  have "card (fst ` set rest) = length rest"
    using d by (metis distinct_card length_map set_map)
  then have 2: "card {k. snd (fst (Get ?ms k)) = None} = nat K"
    by (simp only: 1) (simp add: kvs len)
  have 3: "fst (Get ?ms k) = (v, None)" if "(k, v) \<in> set (tl kvs)" for k v
  proof -
    from that have "(k, v) \<in> set rest" by (simp add: kvs)
    then obtain j where j: "j < length rest" "rest ! j = (k, v)"
      by (auto simp: in_set_conv_nth)
    have "entry ?ms k = Some (Suc j)"
      using map_of_shifted [OF d j(1)] j(2) by (simp only: entry) simp
    moreover have "cells ?ms = contents kvs"
      by (simp add: ms)
    then have "cells ?ms (Suc j) = v"
      using j by (simp add: contents_def kvs)
    ultimately show ?thesis by (simp add: Get_result counter_def)
  qed
  have never: "fst (Get ?ms k') = (0, Some ErrNoSuchKey) \<and> fst (SetNX ?ms k' v') = (True, None)"
    if "entry ?ms k' = None" for k'
    using that by (simp add: Get_result counter_def SetNX_absent)
  have absent: "entry ?ms (fst (hd kvs)) = None"
    using dom [of "fst kv"] hd by (simp add: kvs)
  have "sized ?ms" by (simp add: ms sized_def assms(1))
  with absent have "counter (snd (SetNX ?ms (fst (hd kvs)) v')) (fst (hd kvs)) = Some v'"
    by (rule counter_SetNX_absent)
  then have 4: "fst (Get (snd (SetNX ?ms (fst (hd kvs)) v')) (fst (hd kvs))) = (v', None)"
    by (simp add: Get_result)
  have 5: "entry ?ms k' = None" if "k' \<notin> fst ` set kvs" for k'
    using dom [of k'] that by (auto simp: kvs)
  from 1 2 3 4 never [OF absent] never [OF 5] show ?thesis by blast
qed

text \<open>
  C6. Let the store be the one \<^verbatim>\<open>NewMemStore(K)\<close> returns for \<open>K > 0\<close>. Let any run
  of \<^verbatim>\<open>Get\<close>, \<^verbatim>\<open>SetNX\<close> and \<^verbatim>\<open>CompareAndSwap\<close> calls in which \<^verbatim>\<open>SetNX\<close> was given
  \<open>K\<close> different keys be followed by \<^verbatim>\<open>SetNX\<close> of one more key, the \<open>K + 1\<close>-st. Then:
  \<^item> one key of the run is the least recently touched: after its last touch, every other
    key of the run was touched, and it was not;
  \<^item> that key was in the store before the last insertion and is absent after it:
    \<^verbatim>\<open>Get\<close> on it returns the no-such-key error;
  \<^item> the last insertion succeeds with created = true, and the new key has its value;
  \<^item> the keys that \<^verbatim>\<open>Get\<close> finds are exactly the inserted keys without the least
    recently touched one, and the new key: \<open>K\<close> keys;
  \<^item> every other key gives the same \<^verbatim>\<open>Get\<close> result as before the last insertion;
  \<^item> the evicted key behaves as a key that was never set does: for both, \<^verbatim>\<open>Get\<close>
    returns the no-such-key error and \<^verbatim>\<open>SetNX\<close> succeeds with created = true.
\<close>

theorem bounded_store_evicts_least_recently_touched:
  assumes "0 < K" "NewMemStore K = (Some ms0, None)"
    "card (set (inserted ops)) = nat K" "k' \<notin> set (inserted ops)"
  shows
    "(\<exists>pre post. touches ops = pre @ least_recent (touches ops) # post \<and>
        least_recent (touches ops) \<notin> set post \<and>
        set pre \<subseteq> insert (least_recent (touches ops)) (set post)) \<and>
     snd (fst (Get (run ms0 ops) (least_recent (touches ops)))) = None \<and>
     fst (SetNX (run ms0 ops) k' v') = (True, None) \<and>
     fst (Get (snd (SetNX (run ms0 ops) k' v')) (least_recent (touches ops))) =
       (0, Some ErrNoSuchKey) \<and>
     {k. snd (fst (Get (snd (SetNX (run ms0 ops) k' v')) k)) = None} =
       insert k' (set (inserted ops) - {least_recent (touches ops)}) \<and>
     card {k. snd (fst (Get (snd (SetNX (run ms0 ops) k' v')) k)) = None} = nat K \<and>
     fst (Get (snd (SetNX (run ms0 ops) k' v')) k') = (v', None) \<and>
     (\<forall>k. k \<noteq> k' \<and> k \<noteq> least_recent (touches ops) \<longrightarrow>
        fst (Get (snd (SetNX (run ms0 ops) k' v')) k) = fst (Get (run ms0 ops) k)) \<and>
     fst (SetNX (snd (SetNX (run ms0 ops) k' v')) (least_recent (touches ops)) v'') =
       (True, None) \<and>
     (\<forall>k''. k'' \<notin> set (inserted ops) \<and> k'' \<noteq> k' \<longrightarrow>
        fst (Get (snd (SetNX (run ms0 ops) k' v')) k'') = (0, Some ErrNoSuchKey) \<and>
        fst (SetNX (snd (SetNX (run ms0 ops) k' v')) k'' v'') = (True, None))"
proof -
  let ?tr = "touches ops"
  let ?x = "least_recent ?tr"
  let ?b = "run ms0 ops"
  let ?a = "snd (SetNX ?b k' v')"
  have tr: "tracked K ?b ?tr"
    using assms(1,2) assms(3) by (intro tracked_run) simp_all
  have set_tr: "set ?tr = set (inserted ops)" by (rule set_touches)
  have len: "length (remdups ?tr) = nat K"
    by (simp add: length_remdups_card_conv set_tr assms(3))
  then have ilen: "int (length (remdups ?tr)) = K" using assms(1) by simp
  have ne: "?tr \<noteq> []" using len assms(1) by auto
  have new: "k' \<notin> set ?tr" using assms(4) by (simp add: set_tr)
  from least_recent_last_touch [OF ne] have 0:
    "\<exists>pre post. ?tr = pre @ ?x # post \<and> ?x \<notin> set post \<and> set pre \<subseteq> insert ?x (set post)" .
  then have x_in: "?x \<in> set ?tr" by (metis in_set_conv_decomp)
  then have x_new: "?x \<noteq> k'" using new by auto
  note ev = tracked_evict [OF tr assms(1) ilen new, of v']
  have present: "entry ?b k \<noteq> None \<longleftrightarrow> k \<in> set (inserted ops)" for k
    using tracked_entry [OF tr, of k] by (simp add: set_tr)
  have 1: "snd (fst (Get ?b ?x)) = None"
    using x_in present [of ?x] by (simp add: Get_ok_iff set_tr)
  have 2: "fst (SetNX ?b k' v') = (True, None)" by (rule ev(1))
  have ea: "entry ?a k \<noteq> None \<longleftrightarrow> k \<in> insert k' (set (inserted ops) - {?x})" for k
    using present [of k] by (auto simp: ev(2))
  have 3: "fst (Get ?a ?x) = (0, Some ErrNoSuchKey)"
    using x_new by (simp add: Get_result counter_def ev(2))
  have 4: "{k. snd (fst (Get ?a k)) = None} = insert k' (set (inserted ops) - {?x})"
    by (simp only: Get_ok_iff ea) auto
  have "card (insert k' (set (inserted ops) - {?x})) = nat K"
    using assms(1,3,4) x_in by (simp add: set_tr)
  then have 5: "card {k. snd (fst (Get ?a k)) = None} = nat K" by (simp only: 4)
  have 6: "fst (Get ?a k') = (v', None)"
    by (simp add: Get_result counter_def ev(2,3))
  have 7: "fst (Get ?a k) = fst (Get ?b k)" if "k \<noteq> k'" "k \<noteq> ?x" for k
  proof (cases "entry ?b k")
    case None
    then show ?thesis using that by (simp add: Get_result counter_def ev(2))
  next
    case (Some p)
    then have "p < fresh ?b" by (rule tracked_below_fresh [OF tr])
    then show ?thesis using that Some by (simp add: Get_result counter_def ev(2,3))
  qed
  have absent: "fst (Get ?a k) = (0, Some ErrNoSuchKey) \<and> fst (SetNX ?a k w) = (True, None)"
    if "entry ?a k = None" for k w
    using that by (simp add: Get_result counter_def SetNX_absent)
  have "entry ?a ?x = None" using ea [of ?x] x_new by simp
  then have 8: "fst (SetNX ?a ?x v'') = (True, None)" using absent by blast
  have 9: "fst (Get ?a k'') = (0, Some ErrNoSuchKey) \<and> fst (SetNX ?a k'' v'') = (True, None)"
    if "k'' \<notin> set (inserted ops)" "k'' \<noteq> k'" for k''
  proof -
    have "entry ?a k'' = None" using ea [of k''] that by simp
    then show ?thesis by (rule absent)
  qed
  from 0 1 2 3 4 5 6 7 8 9 show ?thesis by blast
qed

text \<open>
  Witness for C6, capacity 2. After inserting a and b and reading a, the least recently
  touched key is b: inserting c evicts b, and a is still found. After inserting a and b
  only, it is a that goes.
\<close>

theorem bounded_store_evicts_least_recently_touched_witness:
  "0 < (2::int) \<and> NewMemStore 2 = (Some new2, None) \<and>
   card (set (inserted ab_get_a)) = nat 2 \<and> ''c'' \<notin> set (inserted ab_get_a) \<and>
   touches ab_get_a = [''a'', ''b'', ''a''] \<and> least_recent (touches ab_get_a) = ''b'' \<and>
   fst (Get (snd (SetNX (run new2 ab_get_a) ''c'' 3)) ''b'') = (0, Some ErrNoSuchKey) \<and>
   fst (Get (snd (SetNX (run new2 ab_get_a) ''c'' 3)) ''a'') = (1, None) \<and>
   fst (Get (snd (SetNX (run new2 ab_get_a) ''c'' 3)) ''c'') = (3, None) \<and>
   card {k. snd (fst (Get (snd (SetNX (run new2 ab_get_a) ''c'' 3)) k)) = None} = 2 \<and>
   fst (SetNX (snd (SetNX (run new2 ab_get_a) ''c'' 3)) ''b'' 7) = (True, None) \<and>
   card (set (inserted ab_only)) = nat 2 \<and> ''c'' \<notin> set (inserted ab_only) \<and>
   least_recent (touches ab_only) = ''a'' \<and>
   fst (Get (snd (SetNX (run new2 ab_only) ''c'' 3)) ''a'') = (0, Some ErrNoSuchKey) \<and>
   fst (Get (snd (SetNX (run new2 ab_only) ''c'' 3)) ''b'') = (2, None)"
proof -
  have h1: "0 < (2::int)" by simp
  have h2: "NewMemStore 2 = (Some new2, None)"
    by (simp add: new2_def NewMemStore_def lru_New_def)
  have h3: "card (set (inserted ab_get_a)) = nat 2" "card (set (inserted ab_only)) = nat 2"
    by (simp_all add: ab_get_a_def ab_only_def inserted_def)
  have h4: "''c'' \<notin> set (inserted ab_get_a)" "''c'' \<notin> set (inserted ab_only)"
    by (simp_all add: ab_get_a_def ab_only_def inserted_def)
  have t: "touches ab_get_a = [''a'', ''b'', ''a'']" "least_recent (touches ab_get_a) = ''b''"
    "least_recent (touches ab_only) = ''a''"
    by (simp_all add: ab_get_a_def ab_only_def trace_defs)
  have b: "fst (Get (run new2 ab_get_a) ''a'') = (1, None)"
    "fst (Get (run new2 ab_only) ''b'') = (2, None)"
    by (simp_all add: ab_get_a_def ab_only_def run_def new2_def run_defs)
  from bounded_store_evicts_least_recently_touched [OF h1 h2 h3(1) h4(1), of 3 7]
    bounded_store_evicts_least_recently_touched [OF h1 h2 h3(2) h4(2), of 3 7]
  show ?thesis using h1 h2 h3 h4 t b
    by (simp add: inserted_def ab_get_a_def ab_only_def)
qed

text \<open>
  C7. Let the store be the one \<^verbatim>\<open>NewMemStore(maxKeys)\<close> returns for \<open>maxKeys \<le> 0\<close>.
  After inserting any list of pairs with pairwise different keys with \<^verbatim>\<open>SetNX\<close>, every
  one of the keys is found by \<^verbatim>\<open>Get\<close>, with the value it was inserted with.
\<close>

theorem unbounded_store_keeps_all:
  assumes "maxKeys \<le> 0" "NewMemStore maxKeys = (Some ms0, None)"
    "distinct (map fst kvs)" "(k, v) \<in> set kvs"
  shows "fst (Get (SetNX_all ms0 kvs) k) = (v, None)"
proof -
  have ms0: "ms0 = \<lparr>keys = None, m = Map.empty, cells = (\<lambda>_. 0), fresh = 0\<rparr>"
    using assms(1,2) by (simp add: NewMemStore_def)
  obtain i where i: "i < length kvs" "kvs ! i = (k, v)"
    using assms(4) by (auto simp: in_set_conv_nth)
  have "map_of (slots kvs) k = Some i"
    using map_of_slots [OF assms(3) i(1)] i(2) by simp
  then have "counter (SetNX_all ms0 kvs) k = Some v"
    using i by (simp add: ms0 unbounded_run [OF assms(3)] counter_def entry_def contents_def)
  then show ?thesis by (simp add: Get_result)
qed

text \<open>Witness for C7: the three pairs of a, b and c in the store of \<^verbatim>\<open>NewMemStore(0)\<close>.\<close>

theorem unbounded_store_keeps_all_witness:
  "(0::int) \<le> 0 \<and> NewMemStore 0 = (Some new0, None) \<and> distinct (map fst abc) \<and>
   (''a'', 1) \<in> set abc \<and> fst (Get (SetNX_all new0 abc) ''a'') = (1, None)"
proof -
  have h1: "(0::int) \<le> 0" by simp
  have h2: "NewMemStore 0 = (Some new0, None)" by (simp add: new0_def NewMemStore_def)
  have h3: "distinct (map fst abc)" by (simp add: abc_def)
  have h4: "(''a'', 1) \<in> set abc" by (simp add: abc_def)
  from unbounded_store_keeps_all [OF h1 h2 h3 h4] h1 h2 h3 h4 show ?thesis by simp
qed

subsection \<open>Construction\<close>

text \<open>
  C8. \<^verbatim>\<open>NewMemStore(maxKeys)\<close> with \<open>maxKeys > 0\<close> returns an empty store in bounded
  mode, whose cache has the capacity \<open>maxKeys\<close>, built by the bounded branch from what
  \<^verbatim>\<open>lru.New(maxKeys)\<close> returns; with \<open>maxKeys \<le> 0\<close> it returns an empty store in
  unbounded mode. Asking for a bounded cache with a non-positive capacity fails at
  construction: \<^verbatim>\<open>lru.New\<close> returns an error and no cache, and the bounded branch
  returns every error of the constructor, with a nil store.
\<close>

theorem NewMemStore_modes_and_failure:
  "(0 < maxKeys \<longrightarrow>
      NewMemStore maxKeys = bounded_from (lru_New maxKeys) \<and>
      NewMemStore maxKeys =
        (Some \<lparr>keys = Some \<lparr>size_c = maxKeys, evictList = []\<rparr>, m = Map.empty,
               cells = (\<lambda>_. 0), fresh = 0\<rparr>, None)) \<and>
   (maxKeys \<le> 0 \<longrightarrow>
      NewMemStore maxKeys =
        (Some \<lparr>keys = None, m = Map.empty, cells = (\<lambda>_. 0), fresh = 0\<rparr>, None) \<and>
      lru_New maxKeys = (None, Some ErrCacheSize) \<and>
      bounded_from (lru_New maxKeys) = (None, Some ErrCacheSize)) \<and>
   (\<forall>c err. bounded_from (c, Some err) = (None, Some err))"
  by (simp add: NewMemStore_def lru_New_def bounded_from_def)

text \<open>
  Witness for C8: the capacity 2 gives the bounded store, the capacities 0 and -1 give
  the unbounded store, and a bounded cache of capacity 0 or -1 fails to be constructed.
\<close>

theorem NewMemStore_modes_and_failure_witness:
  "(0::int) < 2 \<and> NewMemStore 2 = (Some new2, None) \<and>
   NewMemStore 2 = bounded_from (lru_New 2) \<and>
   (0::int) \<le> 0 \<and> NewMemStore 0 = (Some new0, None) \<and>
   bounded_from (lru_New 0) = (None, Some ErrCacheSize) \<and>
   (- 1 ::int) \<le> 0 \<and> NewMemStore (- 1) = (Some new0, None) \<and>
   lru_New (- 1) = (None, Some ErrCacheSize) \<and>
   bounded_from (lru_New (- 1)) = (None, Some ErrCacheSize)"
  using NewMemStore_modes_and_failure [of 2] NewMemStore_modes_and_failure [of 0]
    NewMemStore_modes_and_failure [of "- 1"]
  by (simp add: new0_def new2_def bounded_from_def lru_New_def)

text \<open>
  C10. \<^verbatim>\<open>NewMemStore(maxKeys)\<close> returns a store that is not nil together with a nil
  error for every integer \<open>maxKeys\<close>, zero and the negative ones included.
\<close>

theorem NewMemStore_never_fails: "\<exists>ms. NewMemStore maxKeys = (Some ms, None)"
  by (simp add: NewMemStore_def lru_New_def)

end
